theory Spec2Isabelle
  imports Main "HOL-Library.Multiset"
begin

section \<open>Data model of app.py\<close>

text \<open>
  A team is the tuple \<open>(id, power)\<close> of two Python integers (unbounded, hence \<open>int\<close>).
  The three dictionaries \<open>lanes\<close>, \<open>deficits\<close> and \<open>final_allocation['lanes']\<close> all carry
  exactly the keys \<open>'left'\<close>, \<open>'center'\<close>, \<open>'right'\<close>, inserted in that order; a dictionary
  of this shape is a function on \<open>lane_name\<close>, and \<open>lane_names\<close> is its iteration order.
\<close>

type_synonym team = "int \<times> int"

datatype lane_name = Left | Center | Right

definition lane_names :: "lane_name list" where
  "lane_names = [Left, Center, Right]"

record lane_state =
  teams :: "team list"
  current_power :: int
  target :: int

type_synonym lanes = "lane_name \<Rightarrow> lane_state"

text \<open>
  A deficit is either an integer or \<open>float('-inf')\<close>. Python compares an integer with
  \<open>-inf\<close> exactly: \<open>-inf\<close> is below every integer and equal only to itself.
\<close>

datatype deficit = NegInf | Fin int

fun deficit_gt :: "deficit \<Rightarrow> deficit \<Rightarrow> bool" where
  "deficit_gt (Fin a) (Fin b) = (b < a)"
| "deficit_gt (Fin a) NegInf = True"
| "deficit_gt NegInf d = False"

datatype py_error = ValueError

record lane_result =
  res_teams :: "team list"
  total_power :: int
  res_target :: int
  difference :: int
  res_count :: nat
  is_success :: bool

record allocation =
  success :: bool
  res_lanes :: "lane_name \<Rightarrow> lane_result"

text \<open>
  The working state of \<open>find_best_allocation\<close>: the argument list \<open>our_teams\<close>, which the
  \<open>for\<close> statement reads by position, and the local dictionary \<open>lanes\<close>.
\<close>

record alloc_state =
  our_teams :: "team list"
  lanes :: lanes

section \<open>Built-ins used by the source\<close>

text \<open>
  \<open>max(iterable, key=f)\<close> keeps the first item and replaces it only by an item whose key
  is strictly greater; on an empty iterable it raises \<open>ValueError\<close>.
\<close>

fun max_from :: "('a \<Rightarrow> deficit) \<Rightarrow> 'a \<Rightarrow> 'a list \<Rightarrow> 'a" where
  "max_from key best [] = best"
| "max_from key best (x # xs) =
     max_from key (if deficit_gt (key x) (key best) then x else best) xs"

definition py_max_key :: "('a \<Rightarrow> deficit) \<Rightarrow> 'a list \<Rightarrow> py_error + 'a" where
  "py_max_key key xs =
     (case xs of [] \<Rightarrow> Inl ValueError | x # rest \<Rightarrow> Inr (max_from key x rest))"

text \<open>
  \<open>sorted(xs, key=f)\<close> is a stable sort by key. With \<open>reverse=True\<close> the list is reversed,
  sorted stably and reversed again, which keeps equal keys in their original order.
\<close>

definition py_sorted :: "('a \<Rightarrow> int) \<Rightarrow> 'a list \<Rightarrow> 'a list" where
  "py_sorted key xs = sort_key key xs"

definition py_sorted_reverse :: "('a \<Rightarrow> int) \<Rightarrow> 'a list \<Rightarrow> 'a list" where
  "py_sorted_reverse key xs = rev (sort_key key (rev xs))"

section \<open>find_best_allocation\<close>

definition init_lanes :: "(lane_name \<Rightarrow> int) \<Rightarrow> lanes" where
  "init_lanes targets =
     (\<lambda>name. \<lparr>teams = [], current_power = 0, target = targets name\<rparr>)"

text \<open>Lines 60 to 65: the dictionary \<open>deficits\<close> for the current \<open>lanes\<close>.\<close>

definition deficits :: "lanes \<Rightarrow> lane_name \<Rightarrow> deficit" where
  "deficits ls name =
     (if length (teams (ls name)) < 20
      then Fin (target (ls name) - current_power (ls name))
      else NegInf)"

text \<open>Lines 74 and 75: the team is appended to the chosen lane and its power added.\<close>

definition add_team :: "lanes \<Rightarrow> lane_name \<Rightarrow> team \<Rightarrow> lanes" where
  "add_team ls name t =
     ls(name := (ls name)\<lparr>teams := teams (ls name) @ [t],
                          current_power := current_power (ls name) + snd t\<rparr>)"

text \<open>Lines 60 to 75: the body of the \<open>for\<close> statement for one team.\<close>

definition assign_team :: "lanes \<Rightarrow> team \<Rightarrow> py_error + lanes" where
  "assign_team ls t =
     (if lane_names = [] \<or> list_all (\<lambda>name. deficits ls name = NegInf) lane_names
      then Inr ls
      else case py_max_key (deficits ls) lane_names of
             Inl e \<Rightarrow> Inl e
           | Inr best_lane_to_assign \<Rightarrow> Inr (add_team ls best_lane_to_assign t))"

text \<open>Line 59: the \<open>for\<close> statement, reading \<open>our_teams\<close> at position \<open>i\<close>.\<close>

function allocate_loop :: "alloc_state \<Rightarrow> nat \<Rightarrow> py_error + alloc_state" where
  "allocate_loop st i =
     (if i < length (our_teams st)
      then case assign_team (lanes st) (our_teams st ! i) of
             Inl e \<Rightarrow> Inl e
           | Inr ls \<Rightarrow> allocate_loop (st\<lparr>lanes := ls\<rparr>) (Suc i)
      else Inr st)"
  by pat_completeness auto
termination
  by (relation "measure (\<lambda>(st, i). length (our_teams st) - i)") auto

declare allocate_loop.simps [simp del]

text \<open>Lines 52 to 75: the state when the \<open>for\<close> statement has finished.\<close>

definition run_allocation :: "team list \<Rightarrow> (lane_name \<Rightarrow> int) \<Rightarrow> py_error + alloc_state" where
  "run_allocation roster targets =
     allocate_loop \<lparr>our_teams = roster, lanes = init_lanes targets\<rparr> 0"

text \<open>Lines 82 to 93: the entry of \<open>final_allocation['lanes']\<close> for one lane.\<close>

definition lane_report :: "lane_state \<Rightarrow> lane_result" where
  "lane_report d =
     \<lparr>res_teams = py_sorted fst (teams d),
      total_power = current_power d,
      res_target = target d,
      difference = current_power d - target d,
      res_count = length (teams d),
      is_success = (current_power d \<ge> target d)\<rparr>"

text \<open>Lines 79 to 84: the flag \<open>all_lanes_success\<close>, cleared by each lane that fails.\<close>

definition all_lanes_success :: "lanes \<Rightarrow> bool" where
  "all_lanes_success ls =
     foldl (\<lambda>ok name. if \<not> is_success (lane_report (ls name)) then False else ok)
       True lane_names"

definition finalize :: "lanes \<Rightarrow> allocation" where
  "finalize ls =
     \<lparr>success = all_lanes_success ls,
      res_lanes = (\<lambda>name. lane_report (ls name))\<rparr>"

definition find_best_allocation :: "team list \<Rightarrow> (lane_name \<Rightarrow> int) \<Rightarrow> py_error + allocation" where
  "find_best_allocation roster targets =
     (case run_allocation roster targets of
        Inl e \<Rightarrow> Inl e
      | Inr st \<Rightarrow> Inr (finalize (lanes st)))"

section \<open>run_precise_optimization_logic\<close>

text \<open>
  The report dictionary. Its constant \<open>title\<close> is left out. The four texts that
  \<open>summary\<close> can hold are constructors carrying the numbers the source formats into them:
  \<open>NoSummary\<close> is the initial empty string, \<open>CountMismatch n\<close> the error text of line 133
  with \<open>len(our_teams_sorted)\<close>, \<open>InsufficientPower d\<close> the warning of line 137 with
  \<open>-power_diff\<close>, \<open>PlanFound\<close> the text of line 144 and \<open>PlanNotFound\<close> that of line 146.
\<close>

datatype summary_text =
  NoSummary | CountMismatch nat | InsufficientPower int | PlanFound | PlanNotFound

datatype analysis_step =
  TargetCalculation (enemy_totals : "lane_name \<Rightarrow> int") (our_targets : "lane_name \<Rightarrow> int")
| PowerEvaluation (step_our_total : int) (step_required_total : int) (power_difference : int)

record report =
  analysis :: "analysis_step list"
  summary :: summary_text
  best_allocation :: "allocation option"

text \<open>
  Line 111. \<open>enemy_data\<close> is the dictionary the caller builds with the three lane keys;
  \<open>advantages\<close> is read with \<open>.get(name, 0)\<close>, so it is a partial map.
\<close>

definition enemy_total_powers :: "(lane_name \<Rightarrow> team list) \<Rightarrow> lane_name \<Rightarrow> int" where
  "enemy_total_powers enemy_data name = sum_list (map snd (enemy_data name))"

definition dict_get :: "('k \<rightharpoonup> int) \<Rightarrow> 'k \<Rightarrow> int \<Rightarrow> int" where
  "dict_get d k dflt = (case d k of None \<Rightarrow> dflt | Some v \<Rightarrow> v)"

text \<open>Lines 113 to 117.\<close>

definition our_target_powers ::
  "(lane_name \<Rightarrow> team list) \<Rightarrow> (lane_name \<rightharpoonup> int) \<Rightarrow> lane_name \<Rightarrow> int" where
  "our_target_powers enemy_data advantages name =
     enemy_total_powers enemy_data name + dict_get advantages name 0"

definition run_precise_optimization_logic ::
  "team list \<Rightarrow> (lane_name \<Rightarrow> team list) \<Rightarrow> (lane_name \<rightharpoonup> int) \<Rightarrow> py_error + report" where
  "run_precise_optimization_logic our_data_list enemy_data advantages =
     (let our_teams_sorted = our_data_list;
          targets = our_target_powers enemy_data advantages;
          step1 = TargetCalculation (enemy_total_powers enemy_data) targets;
          our_total_power = sum_list (map snd our_teams_sorted);
          required_total_power = sum_list (map targets lane_names);
          power_diff = our_total_power - required_total_power;
          step2 = PowerEvaluation our_total_power required_total_power power_diff
      in if length our_teams_sorted \<noteq> 60
         then Inr \<lparr>analysis = [step1, step2],
                   summary = CountMismatch (length our_teams_sorted),
                   best_allocation = None\<rparr>
         else if power_diff < 0
         then Inr \<lparr>analysis = [step1, step2],
                   summary = InsufficientPower (- power_diff),
                   best_allocation = None\<rparr>
         else case find_best_allocation our_teams_sorted targets of
                Inl e \<Rightarrow> Inl e
              | Inr allocation_result \<Rightarrow>
                  Inr \<lparr>analysis = [step1, step2],
                       summary = (if success allocation_result then PlanFound else PlanNotFound),
                       best_allocation = Some allocation_result\<rparr>)"

section \<open>parse_power_data\<close>

text \<open>
  A Python string is a list of characters of some type \<open>'c\<close>. Which characters \<open>\d\<close>
  matches, and the digit each stands for, is a table of the Python runtime (the Unicode
  decimal digits) and not part of app.py: it is the parameter \<open>dv\<close>, with \<open>dv c = Some v\<close>
  when \<open>c\<close> is a decimal digit of value \<open>v\<close>. \<open>ascii_digit\<close> is that table on ASCII.
\<close>

definition ascii_digit :: "char \<Rightarrow> nat option" where
  "ascii_digit c =
     (let n = (of_char c :: nat) in if 48 \<le> n \<and> n \<le> 57 then Some (n - 48) else None)"

definition is_digit :: "('c \<Rightarrow> nat option) \<Rightarrow> 'c \<Rightarrow> bool" where
  "is_digit dv c = (dv c \<noteq> None)"

text \<open>
  \<open>re.findall(r'\d+', text)\<close>: the scan goes left to right; \<open>cur\<close> is the match in
  progress, extended greedily and emitted when a character that is no digit, or the end of
  the text, is reached.
\<close>

fun findall_scan :: "('c \<Rightarrow> bool) \<Rightarrow> 'c list \<Rightarrow> 'c list \<Rightarrow> 'c list list" where
  "findall_scan d cur [] = (if cur = [] then [] else [cur])"
| "findall_scan d cur (c # cs) =
     (if d c then findall_scan d (cur @ [c]) cs
      else if cur = [] then findall_scan d [] cs
      else cur # findall_scan d [] cs)"

definition findall_digits :: "('c \<Rightarrow> nat option) \<Rightarrow> 'c list \<Rightarrow> 'c list list" where
  "findall_digits dv text_data = findall_scan (is_digit dv) [] text_data"

text \<open>
  \<open>int(s)\<close> on a string of decimal digits. The source applies \<open>int\<close> only to matches of
  \<open>\d+\<close>; on the empty string and on a character that is no digit it raises
  \<open>ValueError\<close>. It also raises \<open>ValueError\<close> when the string has more digits than the
  interpreter's limit for the conversion of strings to integers, which counts every digit,
  leading zeros included, and is 4300 unless the interpreter is configured otherwise; the
  source does not configure it. (The signs, blanks and underscores that \<open>int\<close> also reads
  cannot occur in a match and are not modelled; the integers themselves are unbounded.)
\<close>

definition int_max_str_digits :: nat where
  "int_max_str_digits = 4300"

fun int_digits :: "('c \<Rightarrow> nat option) \<Rightarrow> int \<Rightarrow> 'c list \<Rightarrow> py_error + int" where
  "int_digits dv acc [] = Inr acc"
| "int_digits dv acc (c # cs) =
     (case dv c of None \<Rightarrow> Inl ValueError
      | Some v \<Rightarrow> int_digits dv (10 * acc + int v) cs)"

definition py_int :: "('c \<Rightarrow> nat option) \<Rightarrow> 'c list \<Rightarrow> py_error + int" where
  "py_int dv s =
     (if s = [] then Inl ValueError
      else if length s > int_max_str_digits then Inl ValueError
      else int_digits dv 0 s)"

text \<open>Lines 30 to 35: \<open>for i in range(0, len(numbers), 2)\<close>.\<close>

function pair_loop ::
  "('c \<Rightarrow> nat option) \<Rightarrow> 'c list list \<Rightarrow> nat \<Rightarrow> team list \<Rightarrow> py_error + team list" where
  "pair_loop dv numbers i power_list =
     (if i < length numbers
      then if i + 1 < length numbers
           then case py_int dv (numbers ! i) of
                  Inl e \<Rightarrow> Inl e
                | Inr key \<Rightarrow>
                    (case py_int dv (numbers ! (i + 1)) of
                       Inl e \<Rightarrow> Inl e
                     | Inr val \<Rightarrow> pair_loop dv numbers (i + 2) (power_list @ [(key, val)]))
           else pair_loop dv numbers (i + 2) power_list
      else Inr power_list)"
  by pat_completeness auto
termination
  by (relation "measure (\<lambda>(dv, numbers, i, power_list). length numbers - i)") auto

declare pair_loop.simps [simp del]

text \<open>
  The argument is a string, so \<open>isinstance(text_data, str)\<close> holds and the guard of line 25
  is the test for the empty string.
\<close>

definition parse_power_data :: "('c \<Rightarrow> nat option) \<Rightarrow> 'c list \<Rightarrow> py_error + team list" where
  "parse_power_data dv text_data =
     (if text_data = [] then Inr []
      else case pair_loop dv (findall_digits dv text_data) 0 [] of
             Inl e \<Rightarrow> Inl e
           | Inr power_list \<Rightarrow> Inr (py_sorted_reverse snd power_list))"

section \<open>Notions of the specification\<close>

text \<open>
  A lane is eligible while it holds fewer than 20 teams; its deficit is the target minus
  the accumulated power; the fixed order of the lanes is left, center, right.
\<close>

definition spec_eligible :: "lanes \<Rightarrow> lane_name \<Rightarrow> bool" where
  "spec_eligible ls name = (length (teams (ls name)) < 20)"

definition spec_deficit :: "lanes \<Rightarrow> lane_name \<Rightarrow> int" where
  "spec_deficit ls name = target (ls name) - current_power (ls name)"

fun spec_rank :: "lane_name \<Rightarrow> nat" where
  "spec_rank Left = 0"
| "spec_rank Center = 1"
| "spec_rank Right = 2"

text \<open>
  The selection rule: \<open>best\<close> is eligible, no eligible lane has a larger deficit, and
  among the eligible lanes of the same deficit \<open>best\<close> comes first in the fixed order.
\<close>

definition spec_selects :: "lanes \<Rightarrow> lane_name \<Rightarrow> bool" where
  "spec_selects ls best =
     (spec_eligible ls best \<and>
      (\<forall>name \<in> set lane_names. spec_eligible ls name \<longrightarrow>
         spec_deficit ls name \<le> spec_deficit ls best \<and>
         (spec_deficit ls name = spec_deficit ls best \<longrightarrow> spec_rank best \<le> spec_rank name)))"

text \<open>
  One run of the greedy procedure as a relation: a team is dropped when no lane is
  eligible, and otherwise goes to a lane the selection rule allows.
\<close>

inductive spec_step :: "lanes \<Rightarrow> team \<Rightarrow> lanes \<Rightarrow> bool" where
  drop_team: "\<forall>name \<in> set lane_names. \<not> spec_eligible ls name \<Longrightarrow> spec_step ls t ls"
| place_team: "spec_selects ls best \<Longrightarrow> spec_step ls t (add_team ls best t)"

inductive spec_run :: "lanes \<Rightarrow> team list \<Rightarrow> lanes \<Rightarrow> bool" where
  run_done: "spec_run ls [] ls"
| run_next: "spec_step ls t ls' \<Longrightarrow> spec_run ls' ts ls'' \<Longrightarrow> spec_run ls (t # ts) ls''"

text \<open>The teams held by the three lanes together.\<close>

definition all_teams :: "lanes \<Rightarrow> team list" where
  "all_teams ls = teams (ls Left) @ teams (ls Center) @ teams (ls Right)"

text \<open>The loop body as a total function, for the proofs.\<close>

definition step :: "lanes \<Rightarrow> team \<Rightarrow> lanes" where
  "step ls t =
     (if \<forall>name \<in> set lane_names. \<not> spec_eligible ls name then ls
      else add_team ls (max_from (deficits ls) Left [Center, Right]) t)"

text \<open>
  The parser in the words of the specification: the decimal integer substrings are the
  maximal runs of digits, read in base ten, paired consecutively with a trailing unpaired
  one discarded.
\<close>

function spec_runs :: "('c \<Rightarrow> bool) \<Rightarrow> 'c list \<Rightarrow> 'c list list" where
  "spec_runs d [] = []"
| "spec_runs d (c # cs) =
     (if d c then takeWhile d (c # cs) # spec_runs d (dropWhile d cs)
      else spec_runs d cs)"
  by pat_completeness auto
termination
  by (relation "measure (\<lambda>(d, cs). length cs)")
     (auto simp: less_Suc_eq_le length_dropWhile_le)

definition spec_digit :: "('c \<Rightarrow> nat option) \<Rightarrow> 'c \<Rightarrow> int" where
  "spec_digit dv c = (case dv c of None \<Rightarrow> 0 | Some v \<Rightarrow> int v)"

definition spec_decimal :: "('c \<Rightarrow> nat option) \<Rightarrow> 'c list \<Rightarrow> int" where
  "spec_decimal dv s =
     (\<Sum>i < length s. spec_digit dv (s ! i) * 10 ^ (length s - 1 - i))"

fun spec_pairs :: "'a list \<Rightarrow> ('a \<times> 'a) list" where
  "spec_pairs (a # b # rest) = (a, b) # spec_pairs rest"
| "spec_pairs rest = []"

text \<open>
  The runs that end up in a pair are all within the interpreter's limit on the number of
  digits. A trailing unpaired run is never converted and may have any length.
\<close>

definition spec_within_limit :: "'c list list \<Rightarrow> bool" where
  "spec_within_limit runs =
     list_all (\<lambda>p. length (fst p) \<le> int_max_str_digits \<and> length (snd p) \<le> int_max_str_digits)
       (spec_pairs runs)"

text \<open>The invariants of the loop: the capacity of a lane, and its power as the sum of its teams.\<close>

definition cap_inv :: "lanes \<Rightarrow> bool" where
  "cap_inv ls = (\<forall>name. length (teams (ls name)) \<le> 20)"

definition power_inv :: "lanes \<Rightarrow> bool" where
  "power_inv ls = (\<forall>name. current_power (ls name) = sum_list (map snd (teams (ls name))))"

text \<open>Inputs for the examples.\<close>

definition example_roster :: "team list" where
  "example_roster = map (\<lambda>i. (int i, 100)) [0..<60]"

fun example_targets :: "lane_name \<Rightarrow> int" where
  "example_targets Left = 5"
| "example_targets Center = 7"
| "example_targets Right = 7"

definition weak_enemy :: "lane_name \<Rightarrow> team list" where
  "weak_enemy name = [(1, 600), (2, 400)]"

definition no_advantages :: "lane_name \<rightharpoonup> int" where
  "no_advantages = Map.empty"

definition left_concession :: "lane_name \<rightharpoonup> int" where
  "left_concession = [Left \<mapsto> - 100]"

definition long_text :: string where
  "long_text = ''7 '' @ replicate 4301 (CHR ''1'')"

definition strong_enemy :: "lane_name \<Rightarrow> team list" where
  "strong_enemy name = [(1, 2500)]"

section \<open>The allocator: auxiliary facts\<close>

lemma assign_team_step: "assign_team ls t = Inr (step ls t)"
  by (auto simp: assign_team_def step_def lane_names_def py_max_key_def deficits_def spec_eligible_def)

lemma allocate_loop_foldl:
  "allocate_loop st i = Inr (st\<lparr>lanes := foldl step (lanes st) (drop i (our_teams st))\<rparr>)"
proof (induction st i rule: allocate_loop.induct)
  case (1 st i)
  show ?case
  proof (cases "i < length (our_teams st)")
    case True
    then have "drop i (our_teams st) = our_teams st ! i # drop (Suc i) (our_teams st)"
      by (simp add: Cons_nth_drop_Suc)
    with True 1 [OF True assign_team_step] show ?thesis
      by (subst allocate_loop.simps) (simp add: assign_team_step)
  next
    case False
    then show ?thesis by (subst allocate_loop.simps) simp
  qed
qed

lemma run_allocation_foldl:
  "run_allocation roster targets =
     Inr \<lparr>our_teams = roster, lanes = foldl step (init_lanes targets) roster\<rparr>"
  by (simp add: run_allocation_def allocate_loop_foldl)

lemma find_best_allocation_foldl:
  "find_best_allocation roster targets = Inr (finalize (foldl step (init_lanes targets) roster))"
  by (simp add: find_best_allocation_def run_allocation_foldl)

lemma lane_name_cases: "name = Left \<or> name = Center \<or> name = Right"
  by (cases name) auto

lemma set_lane_names [simp]: "set lane_names = UNIV"
  using lane_name_cases by (auto simp: lane_names_def)

lemma spec_rank_inj: "spec_rank a = spec_rank b \<Longrightarrow> a = b"
  by (cases a; cases b) auto

lemma spec_selects_unique: "spec_selects ls a \<Longrightarrow> spec_selects ls b \<Longrightarrow> a = b"
proof -
  assume a: "spec_selects ls a" and b: "spec_selects ls b"
  from a b have "spec_deficit ls b \<le> spec_deficit ls a" "spec_deficit ls a \<le> spec_deficit ls b"
    by (auto simp: spec_selects_def)
  then have "spec_deficit ls a = spec_deficit ls b" by simp
  with a b have "spec_rank a \<le> spec_rank b" "spec_rank b \<le> spec_rank a"
    by (auto simp: spec_selects_def)
  then show "a = b" by (simp add: spec_rank_inj)
qed

lemma max_from_selects:
  assumes "\<exists>name. spec_eligible ls name"
  shows "spec_selects ls (max_from (deficits ls) Left [Center, Right])"
proof -
  from assms have "spec_eligible ls Left \<or> spec_eligible ls Center \<or> spec_eligible ls Right"
    using lane_name_cases by metis
  then show ?thesis
    by (auto simp: spec_selects_def deficits_def spec_eligible_def spec_deficit_def lane_names_def)
qed

lemma step_cases:
  "(\<forall>name. \<not> spec_eligible ls name) \<and> step ls t = ls \<or>
   (\<exists>best. spec_selects ls best \<and> step ls t = add_team ls best t)"
proof (cases "\<exists>name. spec_eligible ls name")
  case True
  then have "\<not> (\<forall>name \<in> set lane_names. \<not> spec_eligible ls name)"
    by simp
  then have "step ls t = add_team ls (max_from (deficits ls) Left [Center, Right]) t"
    unfolding step_def by (rule if_not_P)
  with max_from_selects [OF True] show ?thesis by blast
next
  case False
  then show ?thesis by (simp add: step_def)
qed

lemma teams_add_team:
  "teams (add_team ls best t name) = (if name = best then teams (ls best) @ [t] else teams (ls name))"
  by (simp add: add_team_def)

lemma current_power_add_team:
  "current_power (add_team ls best t name) =
     (if name = best then current_power (ls best) + snd t else current_power (ls name))"
  by (simp add: add_team_def)

lemma target_add_team: "target (add_team ls best t name) = target (ls name)"
  by (simp add: add_team_def)

lemma mset_all_teams_add_team:
  "mset (all_teams (add_team ls best t)) = add_mset t (mset (all_teams ls))"
  by (cases best) (simp_all add: all_teams_def teams_add_team)

lemma cap_inv_step: "cap_inv ls \<Longrightarrow> cap_inv (step ls t)"
  using step_cases [of ls t]
  by (auto simp: cap_inv_def spec_selects_def spec_eligible_def teams_add_team)

lemma power_inv_step: "power_inv ls \<Longrightarrow> power_inv (step ls t)"
  using step_cases [of ls t]
  by (auto simp: power_inv_def teams_add_team current_power_add_team)

lemma target_step: "target (step ls t name) = target (ls name)"
  using step_cases [of ls t] by (auto simp: target_add_team)

lemma length_all_teams:
  "length (all_teams ls) =
     length (teams (ls Left)) + length (teams (ls Center)) + length (teams (ls Right))"
  by (simp add: all_teams_def)

lemma spec_eligible_iff_room:
  assumes "cap_inv ls"
  shows "(\<exists>name. spec_eligible ls name) \<longleftrightarrow> length (all_teams ls) < 60"
proof
  assume "\<exists>name. spec_eligible ls name"
  then obtain name where "length (teams (ls name)) < 20" by (auto simp: spec_eligible_def)
  moreover from assms have "length (teams (ls Left)) \<le> 20" "length (teams (ls Center)) \<le> 20"
    "length (teams (ls Right)) \<le> 20" by (simp_all add: cap_inv_def)
  ultimately show "length (all_teams ls) < 60"
    by (cases name) (simp_all add: length_all_teams)
next
  assume "length (all_teams ls) < 60"
  then have "length (teams (ls Left)) < 20 \<or> length (teams (ls Center)) < 20
    \<or> length (teams (ls Right)) < 20"
    by (simp add: length_all_teams) arith
  then show "\<exists>name. spec_eligible ls name" by (auto simp: spec_eligible_def)
qed

lemma mset_all_teams_step:
  assumes "cap_inv ls"
  shows "mset (all_teams (step ls t)) =
     (if length (all_teams ls) < 60 then add_mset t (mset (all_teams ls))
      else mset (all_teams ls))"
  using step_cases [of ls t] spec_eligible_iff_room [OF assms]
  by (auto simp: mset_all_teams_add_team spec_selects_def)

lemma cap_inv_foldl: "cap_inv ls \<Longrightarrow> cap_inv (foldl step ls ts)"
  by (induction ts arbitrary: ls) (simp_all add: cap_inv_step)

lemma power_inv_foldl: "power_inv ls \<Longrightarrow> power_inv (foldl step ls ts)"
  by (induction ts arbitrary: ls) (simp_all add: power_inv_step)

lemma target_foldl: "target (foldl step ls ts name) = target (ls name)"
  by (induction ts arbitrary: ls) (simp_all add: target_step)

lemma mset_all_teams_foldl:
  "cap_inv ls \<Longrightarrow>
   mset (all_teams (foldl step ls ts)) =
     mset (all_teams ls) + mset (take (60 - length (all_teams ls)) ts)"
proof (induction ts arbitrary: ls)
  case Nil
  then show ?case by simp
next
  case (Cons t ts)
  have len: "length (all_teams (step ls t)) =
      (if length (all_teams ls) < 60 then Suc (length (all_teams ls)) else length (all_teams ls))"
    using arg_cong [OF mset_all_teams_step [OF Cons.prems, of t], of size] by simp
  show ?case
  proof (cases "length (all_teams ls) < 60")
    case True
    then obtain k where k: "60 - length (all_teams ls) = Suc k"
      by (metis Suc_diff_Suc)
    with True len have "60 - length (all_teams (step ls t)) = k" by simp
    with Cons.IH [OF cap_inv_step [OF Cons.prems], of t] k True show ?thesis
      by (simp add: mset_all_teams_step [OF Cons.prems])
  next
    case False
    with len Cons.IH [OF cap_inv_step [OF Cons.prems], of t] show ?thesis
      by (simp add: mset_all_teams_step [OF Cons.prems])
  qed
qed

lemma cap_inv_init: "cap_inv (init_lanes targets)"
  by (simp add: cap_inv_def init_lanes_def)

lemma power_inv_init: "power_inv (init_lanes targets)"
  by (simp add: power_inv_def init_lanes_def)

lemma all_teams_init: "all_teams (init_lanes targets) = []"
  by (simp add: all_teams_def init_lanes_def)

lemma sorted_py_sorted: "sorted (map key (py_sorted key xs))"
  by (simp add: py_sorted_def)

lemma length_py_sorted: "length (py_sorted key xs) = length xs"
  by (simp add: py_sorted_def)

lemma sum_list_py_sorted:
  "sum_list (map snd (py_sorted key xs)) = sum_list (map snd (xs :: ('a \<times> int) list))"
proof -
  have "mset (map snd (py_sorted key xs)) = mset (map snd xs)"
    by (simp add: py_sorted_def)
  then have "sum_mset (mset (map snd (py_sorted key xs))) = sum_mset (mset (map snd xs))"
    by (rule arg_cong)
  then show ?thesis by (simp only: sum_mset_sum_list)
qed

lemma res_teams_finalize: "res_teams (res_lanes (finalize ls) name) = py_sorted fst (teams (ls name))"
  by (simp add: finalize_def lane_report_def)

lemma mset_res_teams_finalize:
  "mset (res_teams (res_lanes (finalize ls) Left)) + mset (res_teams (res_lanes (finalize ls) Center))
     + mset (res_teams (res_lanes (finalize ls) Right)) = mset (all_teams ls)"
  by (simp add: res_teams_finalize py_sorted_def all_teams_def)

lemma mset_all_teams_run:
  "mset (all_teams (foldl step (init_lanes targets) roster)) = mset (take 60 roster)"
  using mset_all_teams_foldl [OF cap_inv_init, of targets roster]
  by (simp add: all_teams_init)

lemma foldl_step_split:
  "foldl step ls roster = foldl step (foldl step ls (take k roster)) (drop k roster)"
  by (metis append_take_drop_id foldl_append)

lemma spec_step_unique: "spec_step ls t ls' \<Longrightarrow> ls' = step ls t"
proof (induction rule: spec_step.induct)
  case (drop_team ls t)
  then show ?case by (simp add: step_def)
next
  case (place_team ls best t)
  then have "spec_eligible ls best" by (simp add: spec_selects_def)
  with step_cases [of ls t] obtain b where b: "spec_selects ls b" "step ls t = add_team ls b t"
    by blast
  from spec_selects_unique [OF place_team b(1)] b(2) show ?case by simp
qed

lemma spec_run_unique: "spec_run ls ts ls' \<Longrightarrow> ls' = foldl step ls ts"
  by (induction rule: spec_run.induct) (auto dest: spec_step_unique)

lemma spec_step_step: "spec_step ls t (step ls t)"
proof (cases "\<forall>name \<in> set lane_names. \<not> spec_eligible ls name")
  case True
  then have "step ls t = ls" unfolding step_def by (rule if_P)
  with drop_team [OF True] show ?thesis by simp
next
  case False
  with step_cases [of ls t] obtain b where "spec_selects ls b" "step ls t = add_team ls b t"
    by auto
  then show ?thesis by (simp add: place_team)
qed

lemma spec_run_foldl: "spec_run ls ts (foldl step ls ts)"
  by (induction ts arbitrary: ls) (auto intro: spec_run.intros spec_step_step)

section \<open>The parser: auxiliary facts\<close>

lemma findall_scan_spec_runs:
  "findall_scan d cur cs =
     (if cur = [] then spec_runs d cs
      else (cur @ takeWhile d cs) # spec_runs d (dropWhile d cs))"
proof (induction cs arbitrary: cur)
  case Nil
  show ?case by simp
next
  case (Cons c cs)
  show ?case
  proof (cases "d c")
    case True
    have "findall_scan d cur (c # cs) = findall_scan d (cur @ [c]) cs"
      using True by simp
    also have "\<dots> = (cur @ c # takeWhile d cs) # spec_runs d (dropWhile d cs)"
      by (simp add: Cons.IH [of "cur @ [c]"])
    finally show ?thesis using True by simp
  next
    case False
    have "findall_scan d [] cs = spec_runs d cs"
      by (simp add: Cons.IH [of "[]"])
    with False show ?thesis by simp
  qed
qed

lemma findall_digits_spec_runs: "findall_digits dv text_data = spec_runs (is_digit dv) text_data"
  by (simp add: findall_digits_def findall_scan_spec_runs)

lemma spec_runs_digits: "r \<in> set (spec_runs d cs) \<Longrightarrow> r \<noteq> [] \<and> (\<forall>c \<in> set r. d c)"
proof (induction d cs rule: spec_runs.induct)
  case (1 d)
  then show ?case by simp
next
  case (2 d c cs)
  show ?case
  proof (cases "d c")
    case True
    with "2.prems" have "r = takeWhile d (c # cs) \<or> r \<in> set (spec_runs d (dropWhile d cs))"
      by simp
    then show ?thesis
    proof
      assume r: "r = takeWhile d (c # cs)"
      with True have "r \<noteq> []" by simp
      moreover from r have "\<forall>x \<in> set r. d x" by (blast dest: set_takeWhileD)
      ultimately show ?thesis by simp
    next
      assume "r \<in> set (spec_runs d (dropWhile d cs))"
      then show ?thesis by (rule "2.IH"(1) [OF True])
    qed
  next
    case False
    with "2.prems" have "r \<in> set (spec_runs d cs)" by simp
    then show ?thesis by (rule "2.IH"(2) [OF False])
  qed
qed

lemma spec_decimal_Nil: "spec_decimal dv [] = 0"
  by (simp add: spec_decimal_def)

lemma spec_decimal_Cons:
  "spec_decimal dv (c # cs) = spec_digit dv c * 10 ^ length cs + spec_decimal dv cs"
  unfolding spec_decimal_def
  by (simp only: length_Cons sum.lessThan_Suc_shift) simp

lemma int_digits_value:
  "\<forall>c \<in> set s. is_digit dv c \<Longrightarrow>
   int_digits dv acc s = Inr (acc * 10 ^ length s + spec_decimal dv s)"
proof (induction s arbitrary: acc)
  case Nil
  then show ?case by (simp add: spec_decimal_Nil)
next
  case (Cons c cs)
  then obtain v where v: "dv c = Some v" by (auto simp: is_digit_def)
  with Cons show ?case
    by (simp add: spec_decimal_Cons spec_digit_def algebra_simps)
qed

lemma py_int_value:
  "s \<noteq> [] \<Longrightarrow> \<forall>c \<in> set s. is_digit dv c \<Longrightarrow>
   py_int dv s =
     (if length s \<le> int_max_str_digits then Inr (spec_decimal dv s) else Inl ValueError)"
  by (simp add: py_int_def int_digits_value)

lemma spec_within_limit_Cons2:
  "spec_within_limit (a # b # rest) =
     (length a \<le> int_max_str_digits \<and> length b \<le> int_max_str_digits \<and> spec_within_limit rest)"
  by (simp add: spec_within_limit_def)

lemma spec_within_limit_short: "length runs < 2 \<Longrightarrow> spec_within_limit runs"
  by (cases runs rule: spec_pairs.cases) (simp_all add: spec_within_limit_def)

lemma pair_loop_spec:
  assumes "\<forall>r \<in> set numbers. r \<noteq> [] \<and> (\<forall>c \<in> set r. is_digit dv c)"
  shows "pair_loop dv numbers i power_list =
     (if spec_within_limit (drop i numbers)
      then Inr (power_list @ spec_pairs (map (spec_decimal dv) (drop i numbers)))
      else Inl ValueError)"
  using assms
proof (induction dv numbers i power_list rule: pair_loop.induct)
  case (1 dv numbers i power_list)
  show ?case
  proof (cases "i + 1 < length numbers")
    case True
    then have i: "i < length numbers" by simp
    from True have d: "drop i numbers = numbers ! i # numbers ! Suc i # drop (Suc (Suc i)) numbers"
      by (simp add: Cons_nth_drop_Suc)
    from True "1.prems" have a: "py_int dv (numbers ! i) =
        (if length (numbers ! i) \<le> int_max_str_digits
         then Inr (spec_decimal dv (numbers ! i)) else Inl ValueError)"
      by (intro py_int_value) auto
    from True "1.prems" have b: "py_int dv (numbers ! Suc i) =
        (if length (numbers ! Suc i) \<le> int_max_str_digits
         then Inr (spec_decimal dv (numbers ! Suc i)) else Inl ValueError)"
      by (intro py_int_value) auto
    show ?thesis
    proof (cases "length (numbers ! i) \<le> int_max_str_digits \<and>
        length (numbers ! Suc i) \<le> int_max_str_digits")
      case ok: True
      from ok a have a': "py_int dv (numbers ! i) = Inr (spec_decimal dv (numbers ! i))"
        by simp
      from ok b have b': "py_int dv (numbers ! (i + 1)) = Inr (spec_decimal dv (numbers ! (i + 1)))"
        by simp
      from b' have b'': "py_int dv (numbers ! Suc i) = Inr (spec_decimal dv (numbers ! Suc i))"
        by simp
      show ?thesis
        using "1.IH"(1) [OF i True a' b' "1.prems"] True i ok
        by (subst pair_loop.simps) (simp add: a' b'' d spec_within_limit_Cons2)
    next
      case False
      with a b True i show ?thesis
        by (subst pair_loop.simps) (auto simp: d spec_within_limit_Cons2)
    qed
  next
    case False
    then have short: "spec_within_limit (drop i numbers)"
      by (intro spec_within_limit_short) simp
    show ?thesis
    proof (cases "i < length numbers")
      case True
      with False have "drop i numbers = [numbers ! i]"
        using Cons_nth_drop_Suc [of i numbers] by simp
      moreover from False have "drop (i + 2) numbers = []" by simp
      ultimately show ?thesis
        using "1.IH"(2) [OF True False "1.prems"] True False short
        by (subst pair_loop.simps) (simp add: spec_within_limit_def)
    next
      case False
      with short show ?thesis by (subst pair_loop.simps) simp
    qed
  qed
qed

lemma parse_power_data_cases:
  "parse_power_data dv text_data =
     (if spec_within_limit (spec_runs (is_digit dv) text_data)
      then Inr (py_sorted_reverse snd
             (spec_pairs (map (spec_decimal dv) (spec_runs (is_digit dv) text_data))))
      else Inl ValueError)"
proof (cases "text_data = []")
  case True
  then show ?thesis
    by (simp add: parse_power_data_def spec_within_limit_def py_sorted_reverse_def)
next
  case False
  have "pair_loop dv (findall_digits dv text_data) 0 [] =
     (if spec_within_limit (spec_runs (is_digit dv) text_data)
      then Inr (spec_pairs (map (spec_decimal dv) (spec_runs (is_digit dv) text_data)))
      else Inl ValueError)"
    using pair_loop_spec [of "spec_runs (is_digit dv) text_data" dv 0 "[]"]
      spec_runs_digits [of _ "is_digit dv" text_data]
    by (simp add: findall_digits_spec_runs)
  with False show ?thesis
    by (simp add: parse_power_data_def)
qed

lemma mset_py_sorted_reverse: "mset (py_sorted_reverse key xs) = mset xs"
  by (simp add: py_sorted_reverse_def)

lemma sorted_py_sorted_reverse: "sorted (rev (map key (py_sorted_reverse key xs)))"
  by (simp add: py_sorted_reverse_def rev_map)

lemma stable_py_sorted_reverse:
  "filter (\<lambda>x. key x = k) (py_sorted_reverse key xs) = filter (\<lambda>x. key x = k) xs"
  by (simp add: py_sorted_reverse_def rev_filter [symmetric] sort_key_stable)

text \<open>
  The runs are cut out of the text as the specification says: separators are skipped, a
  run that ends at a separator or at the end of the text is taken whole, and together the
  runs are the digits of the text in order.
\<close>

lemma length_spec_pairs: "length (spec_pairs xs) = length xs div 2"
  by (induction xs rule: spec_pairs.induct) simp_all

lemma concat_spec_runs: "concat (spec_runs d cs) = filter d cs"
proof (induction d cs rule: spec_runs.induct)
  case (1 d)
  show ?case by simp
next
  case (2 d c cs)
  show ?case
  proof (cases "d c")
    case True
    have "filter d (takeWhile d cs) = takeWhile d cs"
      by (simp add: filter_id_conv) (blast dest: set_takeWhileD)
    then have "filter d (takeWhile d cs @ dropWhile d cs) = takeWhile d cs @ filter d (dropWhile d cs)"
      by (simp only: filter_append)
    then have "filter d cs = takeWhile d cs @ filter d (dropWhile d cs)"
      by simp
    with True "2.IH"(1) [OF True] show ?thesis by simp
  next
    case False
    with "2.IH"(2) [OF False] show ?thesis by simp
  qed
qed

lemma spec_runs_separator:
  "\<forall>c \<in> set sep. \<not> d c \<Longrightarrow> spec_runs d (sep @ rest) = spec_runs d rest"
  by (induction sep) simp_all

lemma spec_runs_run:
  assumes "run \<noteq> []" and "\<forall>c \<in> set run. d c" and "rest = [] \<or> \<not> d (hd rest)"
  shows "spec_runs d (run @ rest) = run # spec_runs d rest"
proof -
  from assms(1) obtain c cs where run: "run = c # cs" by (cases run) auto
  from assms(3) have r: "takeWhile d rest = []" "dropWhile d rest = rest"
    by (cases rest; auto)+
  from assms(2) run have "takeWhile d (cs @ rest) = cs" "dropWhile d (cs @ rest) = rest"
    by (simp_all add: takeWhile_append2 dropWhile_append2 r)
  with assms(2) run show ?thesis by simp
qed

section \<open>The report and the examples: auxiliary facts\<close>

lemma length_example_roster: "length example_roster = 60"
  by (simp add: example_roster_def)

lemma sum_example_roster: "sum_list (map snd example_roster) = 6000"
  by (simp add: example_roster_def comp_def sum_list_triv)

lemma spec_selects_example: "spec_selects (init_lanes example_targets) Center"
  by (simp add: spec_selects_def spec_eligible_def spec_deficit_def init_lanes_def lane_names_def)

lemma required_total:
  "sum_list (map f lane_names) = (f Left + f Center + f Right :: int)"
  by (simp add: lane_names_def)

lemma res_target_finalize:
  "res_target (res_lanes (finalize (foldl step (init_lanes targets) roster)) name) = targets name"
  by (simp add: finalize_def lane_report_def target_foldl init_lanes_def)

lemma best_allocation_present:
  assumes "length roster = 60"
    and "\<not> sum_list (map snd roster)
        < our_target_powers enemy adv Left + our_target_powers enemy adv Center
          + our_target_powers enemy adv Right"
  shows "\<exists>rep a. run_precise_optimization_logic roster enemy adv = Inr rep \<and>
    best_allocation rep = Some a"
  using assms
  by (simp add: run_precise_optimization_logic_def Let_def required_total
      find_best_allocation_foldl)

lemma strong_enemy_targets: "our_target_powers strong_enemy no_advantages name = 2500"
  by (simp add: our_target_powers_def enemy_total_powers_def strong_enemy_def dict_get_def
      no_advantages_def)

lemma weak_enemy_targets:
  "our_target_powers weak_enemy left_concession name = (if name = Left then 900 else 1000)"
  by (simp add: our_target_powers_def enemy_total_powers_def weak_enemy_def dict_get_def
      left_concession_def)

text \<open>
  The definitions run: a text with a trailing unpaired number and two pairs of equal power,
  a roster of four teams with a tie between center and right at the first team, and the
  roster of 60 teams of power 100 against totals of 1000 in every lane.
\<close>

lemma parse_example:
  "parse_power_data ascii_digit ''7 30, 8 50; 9 30 4'' = Inr [(8, 50), (7, 30), (9, 30)]"
  by code_simp

lemma allocation_example:
  "map_sum id (\<lambda>a. map (\<lambda>name. (res_teams (res_lanes a name), total_power (res_lanes a name),
        is_success (res_lanes a name))) lane_names)
     (find_best_allocation [(4, 50), (2, 40), (3, 30), (1, 20)] example_targets) =
   Inr [([(1, 20), (3, 30)], 50, True), ([(4, 50)], 50, True), ([(2, 40)], 40, True)]"
  by code_simp

lemma report_example:
  "map_sum id (\<lambda>rep. (summary rep, map_option (\<lambda>a. map (\<lambda>name. (res_count (res_lanes a name),
        total_power (res_lanes a name))) lane_names) (best_allocation rep)))
     (run_precise_optimization_logic example_roster weak_enemy no_advantages) =
   Inr (PlanFound, Some [(20, 2000), (20, 2000), (20, 2000)])"
  by code_simp

section \<open>The claims\<close>

subsection \<open>C1\<close>

text \<open>
  Claim C1. For a roster of exactly 60 teams and any three targets, the call returns an
  allocation, and the team lists of its three lanes taken together hold every team of the
  roster exactly as often as the roster does: nothing is left out and nothing is placed
  twice.
\<close>

theorem find_best_allocation_partition:
  assumes "length roster = 60"
  shows "\<exists>a. find_best_allocation roster targets = Inr a \<and>
           mset (res_teams (res_lanes a Left)) + mset (res_teams (res_lanes a Center))
             + mset (res_teams (res_lanes a Right)) = mset roster"
  using assms
  by (simp add: find_best_allocation_foldl mset_res_teams_finalize mset_all_teams_run)

theorem find_best_allocation_partition_witness:
  "length example_roster = 60 \<and>
   (\<exists>a. find_best_allocation example_roster example_targets = Inr a \<and>
      mset (res_teams (res_lanes a Left)) + mset (res_teams (res_lanes a Center))
        + mset (res_teams (res_lanes a Right)) = mset example_roster)"
  using find_best_allocation_partition [OF length_example_roster, of example_targets]
  by (simp add: length_example_roster)

subsection \<open>C2\<close>

text \<open>
  Claim C2. The run over an empty roster ends in the initial state, every lane empty with
  power 0 and its target. The run over a roster extended by one team is the run over the
  roster followed by the loop body for that team: the teams are handled one at a time, in
  the given order. The loop body leaves the lanes as they are when no lane has fewer than
  20 teams. Otherwise it takes the lane that is eligible, has the largest deficit among the
  eligible lanes and, among eligible lanes of that same deficit, comes first in the order
  left, center, right; exactly one lane meets this rule. The team is appended to the team
  list of that lane and its power added to the power of that lane, the target of the lane
  and the other two lanes stay as they were.
\<close>

theorem assign_team_largest_deficit:
  "(\<exists>st0. run_allocation [] targets = Inr st0 \<and> our_teams st0 = [] \<and>
      (\<forall>name. teams (lanes st0 name) = [] \<and> current_power (lanes st0 name) = 0 \<and>
         target (lanes st0 name) = targets name)) \<and>
   (\<exists>st ls. run_allocation roster targets = Inr st \<and> assign_team (lanes st) t = Inr ls \<and>
      run_allocation (roster @ [t]) targets = Inr \<lparr>our_teams = roster @ [t], lanes = ls\<rparr> \<and>
      ((\<forall>name. \<not> spec_eligible (lanes st) name) \<and> ls = lanes st \<or>
       (\<exists>best. spec_selects (lanes st) best \<and>
          (\<forall>other. spec_selects (lanes st) other \<longrightarrow> other = best) \<and>
          teams (ls best) = teams (lanes st best) @ [t] \<and>
          current_power (ls best) = current_power (lanes st best) + snd t \<and>
          target (ls best) = target (lanes st best) \<and>
          (\<forall>other. other \<noteq> best \<longrightarrow> ls other = lanes st other))))"
proof -
  let ?ls = "foldl step (init_lanes targets) roster"
  have first: "\<exists>st0. run_allocation [] targets = Inr st0 \<and> our_teams st0 = [] \<and>
      (\<forall>name. teams (lanes st0 name) = [] \<and> current_power (lanes st0 name) = 0 \<and>
         target (lanes st0 name) = targets name)"
    by (simp add: run_allocation_foldl init_lanes_def)
  have body: "(\<forall>name. \<not> spec_eligible ?ls name) \<and> step ?ls t = ?ls \<or>
      (\<exists>best. spec_selects ?ls best \<and> (\<forall>other. spec_selects ?ls other \<longrightarrow> other = best) \<and>
         teams (step ?ls t best) = teams (?ls best) @ [t] \<and>
         current_power (step ?ls t best) = current_power (?ls best) + snd t \<and>
         target (step ?ls t best) = target (?ls best) \<and>
         (\<forall>other. other \<noteq> best \<longrightarrow> step ?ls t other = ?ls other))"
  proof -
    consider (full) "\<forall>name. \<not> spec_eligible ?ls name" "step ?ls t = ?ls"
      | (place) best where "spec_selects ?ls best" "step ?ls t = add_team ?ls best t"
      using step_cases [of ?ls t] by blast
    then show ?thesis
    proof cases
      case full
      then show ?thesis by simp
    next
      case place
      have "\<forall>other. spec_selects ?ls other \<longrightarrow> other = best"
        using spec_selects_unique [OF _ place(1)] by blast
      moreover have "teams (step ?ls t best) = teams (?ls best) @ [t]"
        "current_power (step ?ls t best) = current_power (?ls best) + snd t"
        "target (step ?ls t best) = target (?ls best)"
        "\<forall>other. other \<noteq> best \<longrightarrow> step ?ls t other = ?ls other"
        by (simp_all add: place(2) add_team_def)
      ultimately show ?thesis using place(1) by blast
    qed
  qed
  have second: "\<exists>st ls. run_allocation roster targets = Inr st \<and>
      assign_team (lanes st) t = Inr ls \<and>
      run_allocation (roster @ [t]) targets = Inr \<lparr>our_teams = roster @ [t], lanes = ls\<rparr> \<and>
      ((\<forall>name. \<not> spec_eligible (lanes st) name) \<and> ls = lanes st \<or>
       (\<exists>best. spec_selects (lanes st) best \<and>
          (\<forall>other. spec_selects (lanes st) other \<longrightarrow> other = best) \<and>
          teams (ls best) = teams (lanes st best) @ [t] \<and>
          current_power (ls best) = current_power (lanes st best) + snd t \<and>
          target (ls best) = target (lanes st best) \<and>
          (\<forall>other. other \<noteq> best \<longrightarrow> ls other = lanes st other)))"
    using body by (simp add: run_allocation_foldl assign_team_step)
  from first second show ?thesis by (rule conjI)
qed

theorem assign_team_largest_deficit_witness:
  "spec_selects (init_lanes example_targets) Center \<and>
   (\<exists>st. run_allocation [(1, 10)] example_targets = Inr st \<and>
      teams (lanes st Center) = [(1, 10)] \<and> current_power (lanes st Center) = 10 \<and>
      target (lanes st Center) = 7 \<and>
      teams (lanes st Left) = [] \<and> teams (lanes st Right) = [])"
proof -
  have "\<exists>st ls. run_allocation [] example_targets = Inr st \<and>
      assign_team (lanes st) (1, 10) = Inr ls \<and>
      run_allocation ([] @ [(1, 10)]) example_targets =
        Inr \<lparr>our_teams = [] @ [(1, 10)], lanes = ls\<rparr> \<and>
      ((\<forall>name. \<not> spec_eligible (lanes st) name) \<and> ls = lanes st \<or>
       (\<exists>best. spec_selects (lanes st) best \<and>
          (\<forall>other. spec_selects (lanes st) other \<longrightarrow> other = best) \<and>
          teams (ls best) = teams (lanes st best) @ [(1, 10)] \<and>
          current_power (ls best) = current_power (lanes st best) + snd ((1, 10) :: team) \<and>
          target (ls best) = target (lanes st best) \<and>
          (\<forall>other. other \<noteq> best \<longrightarrow> ls other = lanes st other)))"
    by (rule conjunct2 [OF assign_team_largest_deficit [of example_targets "[]" "(1, 10)"]])
  then obtain st ls where st: "run_allocation [] example_targets = Inr st"
    and ls: "run_allocation ([] @ [(1, 10)]) example_targets =
       Inr \<lparr>our_teams = [] @ [(1, 10)], lanes = ls\<rparr>"
    and c: "(\<forall>name. \<not> spec_eligible (lanes st) name) \<and> ls = lanes st \<or>
       (\<exists>best. spec_selects (lanes st) best \<and>
          (\<forall>other. spec_selects (lanes st) other \<longrightarrow> other = best) \<and>
          teams (ls best) = teams (lanes st best) @ [(1, 10)] \<and>
          current_power (ls best) = current_power (lanes st best) + snd ((1, 10) :: team) \<and>
          target (ls best) = target (lanes st best) \<and>
          (\<forall>other. other \<noteq> best \<longrightarrow> ls other = lanes st other))"
    by (elim exE conjE)
  from st have i: "lanes st = init_lanes example_targets"
    by (auto simp: run_allocation_foldl)
  from spec_selects_example have e: "spec_eligible (init_lanes example_targets) Center"
    by (simp add: spec_selects_def)
  from c e have "\<exists>best. spec_selects (lanes st) best \<and>
          (\<forall>other. spec_selects (lanes st) other \<longrightarrow> other = best) \<and>
          teams (ls best) = teams (lanes st best) @ [(1, 10)] \<and>
          current_power (ls best) = current_power (lanes st best) + snd ((1, 10) :: team) \<and>
          target (ls best) = target (lanes st best) \<and>
          (\<forall>other. other \<noteq> best \<longrightarrow> ls other = lanes st other)"
    unfolding i by blast
  then obtain best where b: "spec_selects (lanes st) best"
    and u: "teams (ls best) = teams (lanes st best) @ [(1, 10)]"
      "current_power (ls best) = current_power (lanes st best) + snd ((1, 10) :: team)"
      "target (ls best) = target (lanes st best)"
      "\<forall>other. other \<noteq> best \<longrightarrow> ls other = lanes st other"
    by (elim exE conjE)
  from b have "spec_selects (init_lanes example_targets) best" by (simp add: i)
  from spec_selects_unique [OF spec_selects_example this] have best: "best = Center"
    by simp
  from u(4) best have o: "ls Left = lanes st Left" "ls Right = lanes st Right" by simp_all
  from u(1-3) best o ls spec_selects_example show ?thesis
    by (simp add: i init_lanes_def)
qed

subsection \<open>C3\<close>

text \<open>
  Claim C3 as stated asks that a roster of the wrong size is turned down before the power
  difference is worked out. For a roster of one team the report carries the count mismatch,
  and its analysis already holds the total power evaluation with the difference \<open>-2995\<close>.
\<close>

theorem count_mismatch_counterexample:
  "length [(1, 5) :: team] \<noteq> 60 \<and>
   run_precise_optimization_logic [(1, 5)] weak_enemy no_advantages =
     Inr \<lparr>analysis = [TargetCalculation (enemy_total_powers weak_enemy)
                        (our_target_powers weak_enemy no_advantages),
                      PowerEvaluation 5 3000 (- 2995)],
          summary = CountMismatch 1,
          best_allocation = None\<rparr>"
  by (simp add: run_precise_optimization_logic_def Let_def required_total
      our_target_powers_def enemy_total_powers_def weak_enemy_def dict_get_def no_advantages_def)

text \<open>
  Claim C3, amended. For a roster whose length is not 60 the report has the count mismatch
  summary with the actual length and no allocation, whatever the powers are. The analysis
  of the report still holds the target calculation and the total power evaluation with the
  difference between the home total and the sum of the targets; only the test of that
  difference and the allocator are skipped.
\<close>

theorem count_mismatch_report:
  assumes "length roster \<noteq> 60"
  shows "run_precise_optimization_logic roster enemy adv =
     Inr \<lparr>analysis =
            [TargetCalculation (enemy_total_powers enemy) (our_target_powers enemy adv),
             PowerEvaluation (sum_list (map snd roster))
               (our_target_powers enemy adv Left + our_target_powers enemy adv Center
                  + our_target_powers enemy adv Right)
               (sum_list (map snd roster)
                  - (our_target_powers enemy adv Left + our_target_powers enemy adv Center
                     + our_target_powers enemy adv Right))],
          summary = CountMismatch (length roster),
          best_allocation = None\<rparr>"
  using assms
  by (simp add: run_precise_optimization_logic_def Let_def required_total)

theorem count_mismatch_report_witness:
  "length (take 59 example_roster) \<noteq> 60 \<and>
   (\<exists>rep. run_precise_optimization_logic (take 59 example_roster) strong_enemy no_advantages = Inr rep \<and>
      summary rep = CountMismatch 59 \<and> best_allocation rep = None)"
proof -
  have l: "length (take 59 example_roster) \<noteq> 60" by (simp add: example_roster_def)
  show ?thesis
    using l count_mismatch_report [OF l, of strong_enemy no_advantages]
    by (simp add: example_roster_def)
qed

subsection \<open>C4\<close>

text \<open>
  Claim C4. For a roster of exactly 60 teams whose total power is below the sum of the three
  targets, the report has the insufficient power summary with the shortfall (sum of the
  targets minus the home total) and no allocation. The report is given in full and does not
  depend on the allocator.
\<close>

theorem insufficient_power_report:
  assumes "length roster = 60"
    and "sum_list (map snd roster)
        < our_target_powers enemy adv Left + our_target_powers enemy adv Center
          + our_target_powers enemy adv Right"
  shows "run_precise_optimization_logic roster enemy adv =
     Inr \<lparr>analysis =
            [TargetCalculation (enemy_total_powers enemy) (our_target_powers enemy adv),
             PowerEvaluation (sum_list (map snd roster))
               (our_target_powers enemy adv Left + our_target_powers enemy adv Center
                  + our_target_powers enemy adv Right)
               (sum_list (map snd roster)
                  - (our_target_powers enemy adv Left + our_target_powers enemy adv Center
                     + our_target_powers enemy adv Right))],
          summary = InsufficientPower
            (our_target_powers enemy adv Left + our_target_powers enemy adv Center
               + our_target_powers enemy adv Right - sum_list (map snd roster)),
          best_allocation = None\<rparr>"
  using assms
  by (simp add: run_precise_optimization_logic_def Let_def required_total)

theorem insufficient_power_report_witness:
  "length example_roster = 60 \<and>
   sum_list (map snd example_roster)
     < our_target_powers strong_enemy no_advantages Left + our_target_powers strong_enemy no_advantages Center
       + our_target_powers strong_enemy no_advantages Right \<and>
   (\<exists>rep. run_precise_optimization_logic example_roster strong_enemy no_advantages = Inr rep \<and>
      summary rep = InsufficientPower 1500 \<and> best_allocation rep = None)"
proof -
  have p: "sum_list (map snd example_roster)
     < our_target_powers strong_enemy no_advantages Left + our_target_powers strong_enemy no_advantages Center
       + our_target_powers strong_enemy no_advantages Right"
    by (simp add: strong_enemy_targets sum_example_roster)
  show ?thesis
    using p insufficient_power_report [OF length_example_roster p]
    by (simp add: length_example_roster strong_enemy_targets sum_example_roster)
qed

subsection \<open>C5\<close>

text \<open>
  Claim C5. For a roster of any length, any targets and any \<open>k\<close>: the state reached after
  the first \<open>k\<close> teams, from which the loop at position \<open>k\<close> continues to the final state,
  holds at most 20 teams in every lane, and so does every lane of the returned allocation.
\<close>

theorem lane_capacity_never_exceeded:
  "\<exists>st a. run_allocation (take k roster) targets = Inr st \<and>
     allocate_loop \<lparr>our_teams = roster, lanes = lanes st\<rparr> k = run_allocation roster targets \<and>
     length (teams (lanes st name)) \<le> 20 \<and>
     find_best_allocation roster targets = Inr a \<and>
     length (res_teams (res_lanes a name)) \<le> 20 \<and> res_count (res_lanes a name) \<le> 20"
proof -
  have "cap_inv (foldl step (init_lanes targets) xs)" for xs
    by (rule cap_inv_foldl [OF cap_inv_init])
  then have "length (teams (foldl step (init_lanes targets) xs name)) \<le> 20" for xs
    by (simp add: cap_inv_def)
  then show ?thesis
    by (simp add: run_allocation_foldl allocate_loop_foldl find_best_allocation_foldl
        foldl_step_split [of _ roster k, symmetric] finalize_def lane_report_def py_sorted_def)
qed

theorem lane_capacity_never_exceeded_witness:
  "\<exists>st a. run_allocation (take 61 (example_roster @ example_roster)) example_targets = Inr st \<and>
     allocate_loop \<lparr>our_teams = example_roster @ example_roster, lanes = lanes st\<rparr> 61
       = run_allocation (example_roster @ example_roster) example_targets \<and>
     length (teams (lanes st Left)) \<le> 20 \<and>
     find_best_allocation (example_roster @ example_roster) example_targets = Inr a \<and>
     length (res_teams (res_lanes a Left)) \<le> 20 \<and> res_count (res_lanes a Left) \<le> 20"
  by (rule lane_capacity_never_exceeded)

subsection \<open>C6\<close>

text \<open>
  Claim C6. In the returned allocation, for every lane, the listed teams are the teams the
  loop assigned to the lane, sorted by identifier ascending, teams of the same identifier in
  the order of their assignment; \<open>total_power\<close> is the power the loop accumulated for the
  lane and equals the sum of the powers of the listed teams; \<open>target\<close> is the target passed
  in; \<open>is_success\<close> holds exactly when \<open>total_power\<close> is at least the target; \<open>difference\<close>
  is \<open>total_power\<close> minus the target; \<open>count\<close> is the number of teams of the lane. The flag
  \<open>success\<close> holds exactly when all three lanes succeed, and the teams listed in the three
  lanes together are the first 60 teams of the roster.
\<close>

theorem find_best_allocation_report:
  "\<exists>st a. run_allocation roster targets = Inr st \<and>
     find_best_allocation roster targets = Inr a \<and>
     (\<forall>name.
        mset (res_teams (res_lanes a name)) = mset (teams (lanes st name)) \<and>
        sorted (map fst (res_teams (res_lanes a name))) \<and>
        (\<forall>k. filter (\<lambda>x. fst x = k) (res_teams (res_lanes a name)) =
               filter (\<lambda>x. fst x = k) (teams (lanes st name))) \<and>
        total_power (res_lanes a name) = current_power (lanes st name) \<and>
        total_power (res_lanes a name) = sum_list (map snd (res_teams (res_lanes a name))) \<and>
        res_target (res_lanes a name) = targets name \<and>
        is_success (res_lanes a name) = (total_power (res_lanes a name) \<ge> targets name) \<and>
        difference (res_lanes a name) = total_power (res_lanes a name) - targets name \<and>
        res_count (res_lanes a name) = length (teams (lanes st name))) \<and>
     success a = (is_success (res_lanes a Left) \<and> is_success (res_lanes a Center) \<and>
                  is_success (res_lanes a Right)) \<and>
     mset (res_teams (res_lanes a Left)) + mset (res_teams (res_lanes a Center))
       + mset (res_teams (res_lanes a Right)) = mset (take 60 roster)"
proof -
  let ?ls = "foldl step (init_lanes targets) roster"
  let ?st = "\<lparr>our_teams = roster, lanes = ?ls\<rparr>"
  let ?a = "finalize ?ls"
  have "power_inv ?ls" by (rule power_inv_foldl [OF power_inv_init])
  then have p: "current_power (?ls name) = sum_list (map snd (teams (?ls name)))" for name
    by (simp add: power_inv_def)
  have t: "target (?ls name) = targets name" for name
    by (simp add: target_foldl init_lanes_def)
  have r: "res_teams (res_lanes ?a name) = sort_key fst (teams (?ls name))" for name
    by (simp add: finalize_def lane_report_def py_sorted_def)
  have l1: "mset (res_teams (res_lanes ?a name)) = mset (teams (lanes ?st name))" for name
    by (simp add: r)
  have l2: "sorted (map fst (res_teams (res_lanes ?a name)))" for name
    by (simp add: r)
  have l3: "filter (\<lambda>x. fst x = k) (res_teams (res_lanes ?a name)) =
      filter (\<lambda>x. fst x = k) (teams (lanes ?st name))" for name k
    by (simp add: r sort_key_stable)
  have l4: "total_power (res_lanes ?a name) = current_power (lanes ?st name)" for name
    by (simp add: finalize_def lane_report_def)
  have l5: "total_power (res_lanes ?a name) = sum_list (map snd (res_teams (res_lanes ?a name)))"
    for name
    by (simp add: finalize_def lane_report_def sum_list_py_sorted p)
  have l6: "res_target (res_lanes ?a name) = targets name" for name
    by (simp add: finalize_def lane_report_def t)
  have l7: "is_success (res_lanes ?a name) = (total_power (res_lanes ?a name) \<ge> targets name)"
    for name
    by (simp add: finalize_def lane_report_def t)
  have l8: "difference (res_lanes ?a name) = total_power (res_lanes ?a name) - targets name"
    for name
    by (simp add: finalize_def lane_report_def t)
  have l9: "res_count (res_lanes ?a name) = length (teams (lanes ?st name))" for name
    by (simp add: finalize_def lane_report_def)
  have s: "success ?a = (is_success (res_lanes ?a Left) \<and>
      is_success (res_lanes ?a Center) \<and> is_success (res_lanes ?a Right))"
    by (auto simp: finalize_def all_lanes_success_def lane_names_def)
  have m: "mset (res_teams (res_lanes ?a Left)) + mset (res_teams (res_lanes ?a Center))
       + mset (res_teams (res_lanes ?a Right)) = mset (take 60 roster)"
    by (simp only: mset_res_teams_finalize mset_all_teams_run)
  have st: "run_allocation roster targets = Inr ?st"
    by (rule run_allocation_foldl)
  have a: "find_best_allocation roster targets = Inr ?a"
    by (rule find_best_allocation_foldl)
  show ?thesis
    apply (rule exI [of _ ?st])
    apply (rule exI [of _ ?a])
    apply (intro conjI allI)
                apply (rule st)
               apply (rule a)
              apply (rule l1)
             apply (rule l2)
            apply (rule l3)
           apply (rule l4)
          apply (rule l5)
         apply (rule l6)
        apply (rule l7)
       apply (rule l8)
      apply (rule l9)
     apply (rule s)
    apply (rule m)
    done
qed

theorem find_best_allocation_report_witness:
  "\<exists>a. find_best_allocation example_roster example_targets = Inr a \<and>
     sorted (map fst (res_teams (res_lanes a Center))) \<and>
     total_power (res_lanes a Center) = sum_list (map snd (res_teams (res_lanes a Center))) \<and>
     res_target (res_lanes a Center) = 7 \<and>
     is_success (res_lanes a Center) = (total_power (res_lanes a Center) \<ge> 7) \<and>
     difference (res_lanes a Center) = total_power (res_lanes a Center) - 7 \<and>
     success a = (is_success (res_lanes a Left) \<and> is_success (res_lanes a Center) \<and>
                  is_success (res_lanes a Right)) \<and>
     mset (res_teams (res_lanes a Left)) + mset (res_teams (res_lanes a Center))
       + mset (res_teams (res_lanes a Right)) = mset example_roster"
proof -
  from find_best_allocation_report [of example_roster example_targets]
  obtain st a where a: "find_best_allocation example_roster example_targets = Inr a"
    and l: "\<And>name. sorted (map fst (res_teams (res_lanes a name))) \<and>
        total_power (res_lanes a name) = sum_list (map snd (res_teams (res_lanes a name))) \<and>
        res_target (res_lanes a name) = example_targets name \<and>
        is_success (res_lanes a name) = (total_power (res_lanes a name) \<ge> example_targets name) \<and>
        difference (res_lanes a name) = total_power (res_lanes a name) - example_targets name"
    and s: "success a = (is_success (res_lanes a Left) \<and> is_success (res_lanes a Center) \<and>
                  is_success (res_lanes a Right))"
    and m: "mset (res_teams (res_lanes a Left)) + mset (res_teams (res_lanes a Center))
       + mset (res_teams (res_lanes a Right)) = mset (take 60 example_roster)"
    by blast
  from a l [of Center] s m show ?thesis by (simp add: length_example_roster)
qed

subsection \<open>C7\<close>

text \<open>
  Claim C7. The call always returns a report. The first analysis step records, for every
  lane, the opposing total as the sum of the powers of that lane's teams and the target as
  that total plus the advantage of the lane, 0 when the lane has none; when an allocation is
  present its lanes carry these targets.
\<close>

theorem target_calculator:
  "\<exists>rep tot tg step2.
     run_precise_optimization_logic roster enemy adv = Inr rep \<and>
     analysis rep = [TargetCalculation tot tg, step2] \<and>
     (\<forall>name. tot name = sum_list (map snd (enemy name)) \<and>
        tg name = tot name + (case adv name of None \<Rightarrow> 0 | Some a \<Rightarrow> a) \<and>
        (\<forall>a. best_allocation rep = Some a \<longrightarrow> res_target (res_lanes a name) = tg name))"
proof -
  have e: "enemy_total_powers enemy name = sum_list (map snd (enemy name))" for name
    by (simp add: enemy_total_powers_def)
  have t: "our_target_powers enemy adv name =
      enemy_total_powers enemy name + (case adv name of None \<Rightarrow> 0 | Some a \<Rightarrow> a)" for name
    by (simp add: our_target_powers_def dict_get_def)
  show ?thesis
  proof (cases "length roster \<noteq> 60")
    case True
    then show ?thesis
      using e t by (simp add: run_precise_optimization_logic_def Let_def)
  next
    case len: False
    show ?thesis
    proof (cases "sum_list (map snd roster) - sum_list (map (our_target_powers enemy adv) lane_names) < 0")
      case True
      with len show ?thesis
        using e t by (simp add: run_precise_optimization_logic_def Let_def)
    next
      case False
      with len show ?thesis
        using e t
        by (simp add: run_precise_optimization_logic_def Let_def find_best_allocation_foldl
            res_target_finalize)
    qed
  qed
qed

theorem target_calculator_witness:
  "\<exists>rep a. run_precise_optimization_logic example_roster weak_enemy left_concession = Inr rep \<and>
     best_allocation rep = Some a \<and>
     res_target (res_lanes a Left) = 900 \<and> res_target (res_lanes a Center) = 1000 \<and>
     res_target (res_lanes a Right) = 1000"
proof -
  have "\<not> sum_list (map snd example_roster)
      < our_target_powers weak_enemy left_concession Left
        + our_target_powers weak_enemy left_concession Center
        + our_target_powers weak_enemy left_concession Right"
    by (simp add: weak_enemy_targets sum_example_roster)
  from best_allocation_present [OF length_example_roster this]
  obtain rep a where r: "run_precise_optimization_logic example_roster weak_enemy left_concession = Inr rep"
    "best_allocation rep = Some a" by blast
  from target_calculator [of example_roster weak_enemy "left_concession"] r
  have "res_target (res_lanes a name) =
      sum_list (map snd (weak_enemy name)) + (case left_concession name of None \<Rightarrow> 0 | Some a \<Rightarrow> a)"
    for name by auto
  from this [of Left] this [of Center] this [of Right] r show ?thesis
    by (simp add: weak_enemy_def left_concession_def)
qed

subsection \<open>C8\<close>

text \<open>
  Claim C8 as stated promises a list of pairs for every text. On the text made of \<open>7\<close>, a
  blank and 4301 times the digit \<open>1\<close> the second number has more digits than \<open>int\<close>
  converts, and the parser raises \<open>ValueError\<close>.
\<close>

theorem parse_power_data_counterexample:
  "parse_power_data ascii_digit long_text = Inl ValueError"
proof -
  have d: "is_digit ascii_digit (CHR ''7'')" "is_digit ascii_digit (CHR ''1'')"
    "\<not> is_digit ascii_digit (CHR '' '')"
    by (simp_all add: is_digit_def ascii_digit_def)
  have "spec_runs (is_digit ascii_digit) (replicate 4301 (CHR ''1'') @ []) =
      replicate 4301 (CHR ''1'') # spec_runs (is_digit ascii_digit) []"
    by (rule spec_runs_run) (simp_all add: d)
  then have r1: "spec_runs (is_digit ascii_digit) (replicate 4301 (CHR ''1'')) =
      [replicate 4301 (CHR ''1'')]" by simp
  have "spec_runs (is_digit ascii_digit) ([CHR '' ''] @ replicate 4301 (CHR ''1'')) =
      spec_runs (is_digit ascii_digit) (replicate 4301 (CHR ''1''))"
    by (rule spec_runs_separator) (simp add: d)
  with r1 have r2: "spec_runs (is_digit ascii_digit) (CHR '' '' # replicate 4301 (CHR ''1'')) =
      [replicate 4301 (CHR ''1'')]" by simp
  have "spec_runs (is_digit ascii_digit) (''7'' @ CHR '' '' # replicate 4301 (CHR ''1'')) =
      ''7'' # spec_runs (is_digit ascii_digit) (CHR '' '' # replicate 4301 (CHR ''1''))"
    by (rule spec_runs_run) (simp_all add: d)
  with r2 have "spec_runs (is_digit ascii_digit) long_text = [''7'', replicate 4301 (CHR ''1'')]"
    by (simp add: long_text_def)
  then have "\<not> spec_within_limit (spec_runs (is_digit ascii_digit) long_text)"
    by (simp add: spec_within_limit_def int_max_str_digits_def)
  then show ?thesis by (simp add: parse_power_data_cases)
qed

text \<open>
  Claim C8, amended. When every digit run of the text that ends up in a pair has at most
  4300 digits, the parser returns a list. It consists of the pairs obtained by reading the
  maximal digit runs of the text in base ten and pairing them consecutively, a trailing
  unpaired number being discarded; it is sorted by power descending; and pairs of equal
  power keep the order in which they were read. When a paired run is longer, the parser
  raises \<open>ValueError\<close>.
\<close>

theorem parse_power_data_spec:
  "(spec_within_limit (spec_runs (is_digit dv) text_data) \<longrightarrow>
      (\<exists>result. parse_power_data dv text_data = Inr result \<and>
         mset result =
           mset (spec_pairs (map (spec_decimal dv) (spec_runs (is_digit dv) text_data))) \<and>
         sorted (rev (map snd result)) \<and>
         (\<forall>p. filter (\<lambda>x. snd x = p) result =
              filter (\<lambda>x. snd x = p)
                (spec_pairs (map (spec_decimal dv) (spec_runs (is_digit dv) text_data)))))) \<and>
   (\<not> spec_within_limit (spec_runs (is_digit dv) text_data) \<longrightarrow>
      parse_power_data dv text_data = Inl ValueError)"
  by (simp add: parse_power_data_cases mset_py_sorted_reverse sorted_py_sorted_reverse
      stable_py_sorted_reverse)

theorem parse_power_data_spec_witness:
  "spec_within_limit (spec_runs (is_digit ascii_digit) ''7 30, 8 50; 9 30 4'') \<and>
   (\<exists>result. parse_power_data ascii_digit ''7 30, 8 50; 9 30 4'' = Inr result \<and>
      mset result = mset (spec_pairs (map (spec_decimal ascii_digit)
         (spec_runs (is_digit ascii_digit) ''7 30, 8 50; 9 30 4''))) \<and>
      sorted (rev (map snd result)) \<and>
      (\<forall>p. filter (\<lambda>x. snd x = p) result =
           filter (\<lambda>x. snd x = p)
             (spec_pairs (map (spec_decimal ascii_digit)
                (spec_runs (is_digit ascii_digit) ''7 30, 8 50; 9 30 4'')))))"
proof -
  have w: "spec_within_limit (spec_runs (is_digit ascii_digit) ''7 30, 8 50; 9 30 4'')"
    by code_simp
  from w parse_power_data_spec [of ascii_digit "''7 30, 8 50; 9 30 4''"] show ?thesis
    by blast
qed

subsection \<open>C9\<close>

text \<open>
  Claim C9. Any two runs of the greedy procedure on the same roster and the same targets
  end in the same allocation, and it is the allocation that \<open>find_best_allocation\<close> returns.
\<close>

theorem find_best_allocation_deterministic:
  assumes "spec_run (init_lanes targets) roster ls1"
    and "spec_run (init_lanes targets) roster ls2"
  shows "finalize ls1 = finalize ls2 \<and> find_best_allocation roster targets = Inr (finalize ls1)"
  using spec_run_unique [OF assms(1)] spec_run_unique [OF assms(2)]
  by (simp add: find_best_allocation_foldl)

theorem find_best_allocation_deterministic_witness:
  "spec_run (init_lanes example_targets) [(1, 10)]
     (add_team (init_lanes example_targets) Center (1, 10)) \<and>
   find_best_allocation [(1, 10)] example_targets =
     Inr (finalize (add_team (init_lanes example_targets) Center (1, 10)))"
proof -
  have g: "spec_run (init_lanes example_targets) [(1, 10)]
     (add_team (init_lanes example_targets) Center (1, 10))"
    by (rule run_next [OF place_team [OF spec_selects_example] run_done])
  from find_best_allocation_deterministic [OF g g] g show ?thesis by simp
qed

subsection \<open>C10\<close>

text \<open>
  Claim C10. For a roster of any length and any targets the call returns an allocation and
  leaves the list \<open>our_teams\<close> as it was. The three lane counts add up to the smaller of the
  roster length and 60: the lanes hold the first 60 teams of the roster, a shorter roster is
  placed in full and the teams after the 60th are dropped.
\<close>

theorem find_best_allocation_total:
  "\<exists>st a. run_allocation roster targets = Inr st \<and> our_teams st = roster \<and>
     find_best_allocation roster targets = Inr a \<and>
     res_count (res_lanes a Left) + res_count (res_lanes a Center) + res_count (res_lanes a Right)
       = min (length roster) 60 \<and>
     mset (res_teams (res_lanes a Left)) + mset (res_teams (res_lanes a Center))
       + mset (res_teams (res_lanes a Right)) = mset (take 60 roster)"
proof -
  let ?ls = "foldl step (init_lanes targets) roster"
  have "length (all_teams ?ls) = length (take 60 roster)"
    using arg_cong [OF mset_all_teams_run [of targets roster], of size] by simp
  then have "res_count (res_lanes (finalize ?ls) Left) + res_count (res_lanes (finalize ?ls) Center)
      + res_count (res_lanes (finalize ?ls) Right) = min (length roster) 60"
    by (simp add: finalize_def lane_report_def length_all_teams)
  then show ?thesis
    by (simp add: run_allocation_foldl find_best_allocation_foldl mset_res_teams_finalize
        mset_all_teams_run)
qed

theorem find_best_allocation_total_witness:
  "\<exists>st a. run_allocation (example_roster @ [(99, 1)]) example_targets = Inr st \<and>
     our_teams st = example_roster @ [(99, 1)] \<and>
     find_best_allocation (example_roster @ [(99, 1)]) example_targets = Inr a \<and>
     res_count (res_lanes a Left) + res_count (res_lanes a Center) + res_count (res_lanes a Right) = 60 \<and>
     mset (res_teams (res_lanes a Left)) + mset (res_teams (res_lanes a Center))
       + mset (res_teams (res_lanes a Right)) = mset example_roster"
  using find_best_allocation_total [of "example_roster @ [(99, 1)]" example_targets]
  by (simp add: length_example_roster)

end
